theory Spec2Isabelle
  imports Main "HOL-Library.Multiset"
begin

section \<open>Errors\<close>

text \<open>
  A non-nil Go \<^verbatim>\<open>error\<close> value. \<open>New\<close> is a plain error carrying its message; \<open>Error\<close> is
  the composite error of the imported errors package, a struct holding the slice
  \<^verbatim>\<open>ErrSet\<close> of its component errors. The Go value \<^verbatim>\<open>nil\<close> is \<open>None\<close> of
  \<open>error option\<close>.
\<close>

datatype error = New string | Error "error list"

text \<open>
  Modelled from the spec: the package \<^verbatim>\<open>github.com/turtledex/errors\<close> is imported by the
  source and is not under src/. The spec says of the composition that it "collects every
  individual error into a single composed error" and "returns nil if all succeeded".
  \<open>Extend\<close>, \<open>AddContext\<close> and \<open>Compose\<close> follow this and the package's documented
  behaviour: nil inputs are ignored, all-nil input gives nil, and otherwise the result is
  an \<open>Error\<close> whose \<^verbatim>\<open>ErrSet\<close> holds the non-nil inputs (for \<open>Extend\<close>, the extension
  first and an \<open>Error\<close> argument flattened one level). \<open>AddContext err s\<close> extends a
  non-nil \<open>err\<close> with a new plain error whose message is \<open>s\<close>.
\<close>

definition ErrSet :: "error \<Rightarrow> error list" where
  "ErrSet e = (case e of Error es \<Rightarrow> es | New s \<Rightarrow> [e])"

definition Extend :: "error option \<Rightarrow> error option \<Rightarrow> error option" where
  "Extend err extension =
     (case err of
        None \<Rightarrow> extension
      | Some e \<Rightarrow>
          (case extension of
             None \<Rightarrow> err
           | Some x \<Rightarrow>
               (let r = ErrSet x @ ErrSet e
                in if r = [] then None else Some (Error r))))"

definition AddContext :: "error option \<Rightarrow> string \<Rightarrow> error option" where
  "AddContext err s = (case err of None \<Rightarrow> None | Some e \<Rightarrow> Extend err (Some (New s)))"

definition Compose :: "error option list \<Rightarrow> error option" where
  "Compose errs =
     (let r = List.map_filter id errs
      in if r = [] then None else Some (Error r))"

text \<open>
  \<open>contains base cmp\<close>: \<open>cmp\<close> is \<open>base\<close> itself or, when \<open>base\<close> is a composite, is
  contained in one of its components (the membership test the errors package documents
  for composed errors).
\<close>

fun contains :: "error \<Rightarrow> error \<Rightarrow> bool" where
  "contains (New s) cmp = (New s = cmp)"
| "contains (Error es) cmp = (Error es = cmp \<or> (\<exists>e \<in> set es. contains e cmp))"

section \<open>Paths\<close>

text \<open>
  The type \<^verbatim>\<open>modules.TurtleDexPath\<close> is declared outside the source. The tracker uses a
  path only through its methods \<^verbatim>\<open>IsRoot\<close> and \<^verbatim>\<open>Dir\<close>, through its printed form
  (\<^verbatim>\<open>%v\<close>) and as a map key, so the path type is a type parameter \<open>'p\<close> and the methods
  are taken as parameters, collected in one record. \<open>Dir\<close> returns the parent or a non-nil
  error.
\<close>

record 'p pathMethods =
  IsRoot :: "'p \<Rightarrow> bool"
  Dir :: "'p \<Rightarrow> error + 'p"
  String :: "'p \<Rightarrow> string"

section \<open>The tracker\<close>

text \<open>
  \<^verbatim>\<open>uniqueRefreshPaths\<close>: the two maps have the empty struct as value type, so each is the
  set of its keys. The back-reference to the renter only supplies the two refresh
  functions, which are parameters of the refresh operations below. Every method holds
  the mutex from entry to return, so calls are atomic and a history of the tracker is a
  sequence of calls.
\<close>

record 'p uniqueRefreshPaths =
  childDirs :: "'p set"
  parentDirs :: "'p set"

definition newUniqueRefreshPaths :: "'p uniqueRefreshPaths" where
  "newUniqueRefreshPaths = \<lparr>childDirs = {}, parentDirs = {}\<rparr>"

text \<open>
  The loop of \<^verbatim>\<open>callAdd\<close>. It runs until the current path is the root or \<^verbatim>\<open>Dir\<close> fails;
  for arbitrary path methods it need not stop, and \<open>None\<close> stands for a call that never
  returns. A call that returns yields the tracker as mutated so far together with the
  returned error (\<open>None\<close> for nil).
\<close>

partial_function (option) callAdd_loop ::
  "'p pathMethods \<Rightarrow> 'p uniqueRefreshPaths \<Rightarrow> 'p \<Rightarrow> ('p uniqueRefreshPaths \<times> error option) option"
where
  "callAdd_loop pm urp path =
     (if IsRoot pm path then Some (urp, None)
      else
        (case Dir pm path of
           Inl err \<Rightarrow>
             Some (urp, AddContext (Some err) (''unable to get parent directory of '' @ String pm path))
         | Inr parentDir \<Rightarrow>
             callAdd_loop pm
               (urp\<lparr>childDirs :=
                      (if parentDir \<in> childDirs urp then childDirs urp - {parentDir}
                       else childDirs urp),
                    parentDirs := insert parentDir (parentDirs urp)\<rparr>)
               parentDir))"

definition callAdd ::
  "'p pathMethods \<Rightarrow> 'p uniqueRefreshPaths \<Rightarrow> 'p \<Rightarrow> ('p uniqueRefreshPaths \<times> error option) option"
where
  "callAdd pm urp path =
     (if path \<in> parentDirs urp then Some (urp, None)
      else if path \<in> childDirs urp then Some (urp, None)
      else callAdd_loop pm (urp\<lparr>childDirs := insert path (childDirs urp)\<rparr>) path)"

definition callNumChildDirs :: "'p uniqueRefreshPaths \<Rightarrow> int" where
  "callNumChildDirs urp = int (card (childDirs urp))"

definition callNumParentDirs :: "'p uniqueRefreshPaths \<Rightarrow> int" where
  "callNumParentDirs urp = int (card (parentDirs urp))"

text \<open>
  Go's \<^verbatim>\<open>range\<close> over a map that is not modified meanwhile visits every key exactly once,
  in an order that is not specified: \<open>mapRange m ks\<close> says that \<open>ks\<close> is one such order
  of visits for the key set \<open>m\<close>. The refresh operations take the order as an argument.
\<close>

definition mapRange :: "'p set \<Rightarrow> 'p list \<Rightarrow> bool" where
  "mapRange m ks \<longleftrightarrow> distinct ks \<and> set ks = m"

text \<open>
  \<^verbatim>\<open>callRefreshAll\<close> starts one goroutine per visited key. The result is the tracker
  after the call and the list of paths on which \<^verbatim>\<open>callThreadedBubbleMetadata\<close> was
  started, in the order of the \<^verbatim>\<open>go\<close> statements.
\<close>

definition callRefreshAll :: "'p list \<Rightarrow> 'p uniqueRefreshPaths \<Rightarrow> 'p uniqueRefreshPaths \<times> 'p list" where
  "callRefreshAll ks urp = (urp, foldl (\<lambda>started sp. started @ [sp]) [] ks)"

text \<open>
  \<^verbatim>\<open>callRefreshAllBlocking\<close> calls \<^verbatim>\<open>managedBubbleMetadata\<close> on every visited key and
  composes the results. The refresh itself is outside the tracker: the parameter \<open>mbm\<close>
  gives, for each path, the error its refresh returns in the run at hand (\<open>None\<close> for
  nil); a run calls the refresh at most once per path, so this is a function of the path.
  The result is the tracker after the call, the returned error and the list of paths on
  which the refresh was called.
\<close>

definition callRefreshAllBlocking ::
  "('p \<Rightarrow> error option) \<Rightarrow> 'p list \<Rightarrow> 'p uniqueRefreshPaths \<Rightarrow> 'p uniqueRefreshPaths \<times> error option \<times> 'p list"
where
  "callRefreshAllBlocking mbm ks urp =
     (urp, foldl (\<lambda>(err, called) sp. (Compose [err, mbm sp], called @ [sp])) (None, []) ks)"

section \<open>Histories and the ancestor relation\<close>

text \<open>
  A sequence of \<^verbatim>\<open>callAdd\<close> calls on one tracker. The caller goes on after a call that
  returned an error; a call that never returns ends the history (it never releases the
  mutex).
\<close>

fun callAdds :: "'p pathMethods \<Rightarrow> 'p uniqueRefreshPaths \<Rightarrow> 'p list \<Rightarrow> 'p uniqueRefreshPaths option" where
  "callAdds pm urp [] = Some urp"
| "callAdds pm urp (path # paths) =
     (case callAdd pm urp path of
        None \<Rightarrow> None
      | Some (urp', err) \<Rightarrow> callAdds pm urp' paths)"

text \<open>
  \<open>properAncestor pm a p\<close>: \<open>a\<close> is reached from \<open>p\<close> by one or more parent steps, where a
  path has a parent when it is not the root and \<^verbatim>\<open>Dir\<close> succeeds on it.
\<close>

inductive properAncestor :: "'p pathMethods \<Rightarrow> 'p \<Rightarrow> 'p \<Rightarrow> bool" for pm :: "'p pathMethods" where
  parent: "\<not> IsRoot pm p \<Longrightarrow> Dir pm p = Inr a \<Longrightarrow> properAncestor pm a p"
| grand: "\<not> IsRoot pm p \<Longrightarrow> Dir pm p = Inr q \<Longrightarrow> properAncestor pm a q \<Longrightarrow> properAncestor pm a p"

text \<open>
  \<open>walk pm p as stop\<close>: the parent steps from \<open>p\<close> visit the ancestors \<open>as\<close> (nearest
  first) and then end, either at the root (\<open>stop = None\<close>) or at a non-root path \<open>q\<close> on
  which \<^verbatim>\<open>Dir\<close> fails with \<open>e\<close> (\<open>stop = Some (q, e)\<close>).
\<close>

inductive walk :: "'p pathMethods \<Rightarrow> 'p \<Rightarrow> 'p list \<Rightarrow> ('p \<times> error) option \<Rightarrow> bool" for pm :: "'p pathMethods" where
  root: "IsRoot pm p \<Longrightarrow> walk pm p [] None"
| fail: "\<not> IsRoot pm p \<Longrightarrow> Dir pm p = Inl e \<Longrightarrow> walk pm p [] (Some (p, e))"
| step: "\<not> IsRoot pm p \<Longrightarrow> Dir pm p = Inr q \<Longrightarrow> walk pm q as stop \<Longrightarrow> walk pm p (q # as) stop"

definition walkError :: "'p pathMethods \<Rightarrow> ('p \<times> error) option \<Rightarrow> error option" where
  "walkError pm stop =
     (case stop of
        None \<Rightarrow> None
      | Some (q, e) \<Rightarrow> AddContext (Some e) (''unable to get parent directory of '' @ String pm q))"

text \<open>
  A concrete path type for evaluating the tracker: a path is the list of its elements
  from the root down, the root is the empty list, the parent drops the last element, and
  \<^verbatim>\<open>Dir\<close> fails on a path whose last element is empty (as in \<^verbatim>\<open>/a//\<close>).
\<close>

definition listPaths :: "string list pathMethods" where
  "listPaths =
     \<lparr>IsRoot = (\<lambda>p. p = []),
      Dir = (\<lambda>p. if p = [] then Inr []
                 else if last p = [] then Inl (New ''invalid path'')
                 else Inr (butlast p)),
      String = (\<lambda>p. concat (map (\<lambda>e. ''/'' @ e) p))\<rparr>"


text \<open>
  The parent relation of the path methods, child on the right. When it is well-founded
  (no path is its own ancestor and no chain of parents goes on for ever), the loop of
  \<^verbatim>\<open>callAdd\<close> stops on every path.
\<close>

definition parentRel :: "'p pathMethods \<Rightarrow> ('p \<times> 'p) set" where
  "parentRel pm = {(q, p). \<not> IsRoot pm p \<and> Dir pm p = Inr q}"

text \<open>
  The invariant of the tracker: the two sets are disjoint, and every proper ancestor of a
  tracked path is in \<open>parentDirs\<close>.
\<close>

definition covered :: "'p pathMethods \<Rightarrow> 'p uniqueRefreshPaths \<Rightarrow> bool" where
  "covered pm urp \<longleftrightarrow>
     childDirs urp \<inter> parentDirs urp = {} \<and>
     (\<forall>x \<in> childDirs urp \<union> parentDirs urp. \<forall>a. properAncestor pm a x \<longrightarrow> a \<in> parentDirs urp)"

text \<open>\<open>composed err e\<close>: the returned error \<open>err\<close> is non-nil and contains \<open>e\<close>.\<close>

definition composed :: "error option \<Rightarrow> error \<Rightarrow> bool" where
  "composed err e \<longleftrightarrow> (\<exists>E. err = Some E \<and> contains E e)"

text \<open>
  A blocking refresh for evaluation: it succeeds on \<^verbatim>\<open>/b\<close> and fails on every other path.
\<close>

definition refreshFailsButB :: "string list \<Rightarrow> error option" where
  "refreshFailsButB sp = (if sp = [''b''] then None else Some (New (''refresh failed: '' @ concat sp)))"

section \<open>The loop and the walk up the ancestors\<close>

lemma delete_guard: "(if a \<in> S then S - {a} else S) = S - {a}"
  by auto

lemma walk_loop:
  "walk pm p as stop \<Longrightarrow>
   callAdd_loop pm urp p =
     Some (urp\<lparr>childDirs := childDirs urp - set as, parentDirs := parentDirs urp \<union> set as\<rparr>,
           walkError pm stop)"
proof (induction arbitrary: urp rule: walk.induct)
  case (root p)
  then show ?case by (subst callAdd_loop.simps) (simp add: walkError_def)
next
  case (fail p e)
  then show ?case by (subst callAdd_loop.simps) (simp add: walkError_def)
next
  case (step p q as stop)
  have "childDirs urp - {q} - set as = childDirs urp - insert q (set as)" by auto
  with step show ?case
    by (subst callAdd_loop.simps) (simp add: delete_guard)
qed

lemma loop_walk:
  assumes "callAdd_loop pm urp p = Some res"
  shows "\<exists>as stop. walk pm p as stop \<and>
     res = (urp\<lparr>childDirs := childDirs urp - set as, parentDirs := parentDirs urp \<union> set as\<rparr>,
            walkError pm stop)"
proof (rule callAdd_loop.raw_induct
    [where P = "\<lambda>pm urp p res. \<exists>as stop. walk pm p as stop \<and>
       res = (urp\<lparr>childDirs := childDirs urp - set as, parentDirs := parentDirs urp \<union> set as\<rparr>,
            walkError pm stop)", OF _ assms], goal_cases)
  case (1 f pm urp p res)
  show ?case
  proof (cases "IsRoot pm p")
    case True
    with 1(2) have "res = (urp, None)" by simp
    with True show ?thesis
      by (intro exI[of _ "[]"] exI[of _ None]) (simp add: walk.root walkError_def)
  next
    case False
    show ?thesis
    proof (cases "Dir pm p")
      case (Inl e)
      with False 1(2) show ?thesis
        by (intro exI[of _ "[]"] exI[of _ "Some (p, e)"]) (auto simp: walk.fail walkError_def)
    next
      case (Inr q)
      let ?u = "urp\<lparr>childDirs := childDirs urp - {q}, parentDirs := insert q (parentDirs urp)\<rparr>"
      from False Inr 1(2) have "f pm ?u q = Some res" by (simp add: delete_guard)
      from 1(1)[OF this] obtain as stop where w: "walk pm q as stop"
        and r: "res = (?u\<lparr>childDirs := childDirs ?u - set as, parentDirs := parentDirs ?u \<union> set as\<rparr>, walkError pm stop)"
        by blast
      have "childDirs urp - {q} - set as = childDirs urp - insert q (set as)" by auto
      with r have "res = (urp\<lparr>childDirs := childDirs urp - set (q # as), parentDirs := parentDirs urp \<union> set (q # as)\<rparr>, walkError pm stop)"
        by simp
      with walk.step[OF False Inr w] show ?thesis by blast
    qed
  qed
qed


lemma walk_det:
  "walk pm p as stop \<Longrightarrow> walk pm p as' stop' \<Longrightarrow> as' = as \<and> stop' = stop"
proof (induction arbitrary: as' stop' rule: walk.induct)
  case (root p)
  from root(2) root(1) show ?case by (cases rule: walk.cases) auto
next
  case (fail p e)
  from fail(3) fail(1,2) show ?case by (cases rule: walk.cases) auto
next
  case (step p q as stop)
  from step(5) step(1,2) obtain bs where "as' = q # bs" "walk pm q bs stop'"
    by (cases rule: walk.cases) auto
  with step.IH show ?case by auto
qed

lemma walk_suffix:
  "walk pm p as stop \<Longrightarrow> a \<in> set as \<Longrightarrow> \<exists>bs. walk pm a bs stop \<and> length bs < length as"
proof (induction rule: walk.induct)
  case (step p q as stop)
  show ?case
  proof (cases "a = q")
    case True
    with step(3) show ?thesis by auto
  next
    case False
    with step(5) have "a \<in> set as" by simp
    from step.IH[OF this] show ?thesis by auto
  qed
qed simp_all

lemma walk_start_notin: "walk pm p as stop \<Longrightarrow> p \<notin> set as"
proof
  assume w: "walk pm p as stop" and "p \<in> set as"
  from walk_suffix[OF this] obtain bs where "walk pm p bs stop" "length bs < length as" by blast
  with walk_det[OF w] show False by auto
qed

lemma walk_ancestors: "walk pm p as stop \<Longrightarrow> properAncestor pm a p \<longleftrightarrow> a \<in> set as"
proof (induction rule: walk.induct)
  case (root p)
  then show ?case by (auto elim: properAncestor.cases)
next
  case (fail p e)
  then show ?case by (auto elim: properAncestor.cases)
next
  case (step p q as stop)
  show ?case
  proof
    assume "properAncestor pm a p"
    then show "a \<in> set (q # as)"
      using step by (cases rule: properAncestor.cases) auto
  next
    assume "a \<in> set (q # as)"
    then show "properAncestor pm a p"
      using step by (auto intro: properAncestor.intros)
  qed
qed

lemma properAncestor_trans:
  "properAncestor pm x p \<Longrightarrow> properAncestor pm a x \<Longrightarrow> properAncestor pm a p"
  by (induction rule: properAncestor.induct) (auto intro: properAncestor.intros)


lemma walk_stop_aux:
  "walk pm p as stop \<Longrightarrow> stop = Some (q, e) \<Longrightarrow> \<not> IsRoot pm q \<and> Dir pm q = Inl e"
  by (induction rule: walk.induct) auto

lemma walk_stop:
  "walk pm p as (Some (q, e)) \<Longrightarrow> \<not> IsRoot pm q \<and> Dir pm q = Inl e"
  by (rule walk_stop_aux) simp_all

lemma AddContext_Some:
  "AddContext (Some e) s = Some (Error (New s # ErrSet e))"
  by (simp add: AddContext_def Extend_def ErrSet_def)

lemma walkError_None: "walkError pm stop = None \<longleftrightarrow> stop = None"
  by (auto simp: walkError_def AddContext_Some split: option.splits)

lemma walk_last_root:
  "walk pm p as stop \<Longrightarrow> stop = None \<Longrightarrow> \<not> IsRoot pm p \<Longrightarrow> as \<noteq> [] \<and> IsRoot pm (last as)"
proof (induction rule: walk.induct)
  case (root p)
  then show ?case by simp
next
  case (fail p e)
  then show ?case by simp
next
  case (step p q as stop)
  show ?case
  proof (cases "IsRoot pm q")
    case True
    from walk_det[OF walk.root[OF True] step(3)] have "as = []" by simp
    with True show ?thesis by simp
  next
    case False
    with step.IH step.prems(1) show ?thesis by simp
  qed
qed

section \<open>What one call does, and the invariant\<close>

lemma callAdd_tracked:
  "path \<in> parentDirs urp \<union> childDirs urp \<Longrightarrow> callAdd pm urp path = Some (urp, None)"
  by (auto simp: callAdd_def)

lemma callAdd_walk:
  assumes "path \<notin> parentDirs urp" "path \<notin> childDirs urp" "walk pm path as stop"
  shows "callAdd pm urp path =
     Some (urp\<lparr>childDirs := insert path (childDirs urp) - set as,
                parentDirs := parentDirs urp \<union> set as\<rparr>, walkError pm stop)"
  using assms by (simp add: callAdd_def walk_loop)

lemma callAdd_cases:
  assumes "callAdd pm urp path = Some (urp', err)"
  obtains (tracked) "path \<in> parentDirs urp \<union> childDirs urp" "urp' = urp" "err = None"
  | (walked) as stop where "path \<notin> parentDirs urp" "path \<notin> childDirs urp" "walk pm path as stop"
      "urp' = urp\<lparr>childDirs := insert path (childDirs urp) - set as,
                   parentDirs := parentDirs urp \<union> set as\<rparr>"
      "err = walkError pm stop"
proof (cases "path \<in> parentDirs urp \<union> childDirs urp")
  case True
  with assms have "urp' = urp \<and> err = None" by (auto simp: callAdd_def split: if_splits)
  with True tracked show ?thesis by blast
next
  case False
  with assms have "callAdd_loop pm (urp\<lparr>childDirs := insert path (childDirs urp)\<rparr>) path = Some (urp', err)"
    by (auto simp: callAdd_def)
  from loop_walk[OF this] False walked show ?thesis by auto
qed

lemma callAdd_covered:
  assumes "covered pm urp" "callAdd pm urp path = Some (urp', err)"
  shows "covered pm urp'"
  using assms(2)
proof (cases rule: callAdd_cases)
  case tracked
  with assms(1) show ?thesis by simp
next
  case (walked as stop)
  note anc = walk_ancestors[OF walked(3)]
  have disj: "childDirs urp' \<inter> parentDirs urp' = {}"
    using assms(1) walked(1,4) by (auto simp: covered_def)
  have "a \<in> parentDirs urp'" if x: "x \<in> childDirs urp' \<union> parentDirs urp'" and a: "properAncestor pm a x" for x a
  proof -
    from x walked(4) consider "x \<in> childDirs urp \<union> parentDirs urp" | "x = path" | "x \<in> set as"
      by auto
    then show ?thesis
    proof cases
      case 1
      with assms(1) a have "a \<in> parentDirs urp" by (auto simp: covered_def)
      with walked(4) show ?thesis by simp
    next
      case 2
      with a anc walked(4) show ?thesis by simp
    next
      case 3
      with anc have "properAncestor pm x path" by simp
      from properAncestor_trans[OF this a] anc walked(4) show ?thesis by simp
    qed
  qed
  with disj show ?thesis by (auto simp: covered_def)
qed

lemma covered_new: "covered pm newUniqueRefreshPaths"
  by (simp add: covered_def newUniqueRefreshPaths_def)

lemma callAdds_covered:
  "covered pm urp \<Longrightarrow> callAdds pm urp paths = Some urp' \<Longrightarrow> covered pm urp'"
proof (induction paths arbitrary: urp)
  case Nil
  then show ?case by simp
next
  case (Cons path paths)
  then show ?case
    by (auto split: option.splits dest: callAdd_covered)
qed

lemma callAdd_after:
  assumes "callAdd pm urp path = Some (urp', err)"
  shows "path \<in> childDirs urp' \<union> parentDirs urp'"
  using assms by (cases rule: callAdd_cases) auto

lemma callAdd_parent_mono:
  assumes "callAdd pm urp path = Some (urp', err)"
  shows "parentDirs urp \<subseteq> parentDirs urp'"
  using assms by (cases rule: callAdd_cases) auto

lemma callAdds_parent_mono:
  "callAdds pm urp paths = Some urp' \<Longrightarrow> parentDirs urp \<subseteq> parentDirs urp'"
proof (induction paths arbitrary: urp)
  case Nil
  then show ?case by simp
next
  case (Cons path paths)
  then show ?case
    by (fastforce split: option.splits dest: callAdd_parent_mono)
qed

section \<open>Termination\<close>

lemma walk_exists:
  assumes "wf (parentRel pm)"
  shows "\<exists>as stop. walk pm p as stop"
  using assms
proof (induction p rule: wf_induct_rule)
  case (less p)
  show ?case
  proof (cases "IsRoot pm p")
    case True
    then show ?thesis by (blast intro: walk.root)
  next
    case False
    show ?thesis
    proof (cases "Dir pm p")
      case (Inl e)
      with False show ?thesis by (blast intro: walk.fail)
    next
      case (Inr q)
      with False have "(q, p) \<in> parentRel pm" by (simp add: parentRel_def)
      from less.IH[OF this] obtain as stop where "walk pm q as stop" by blast
      from walk.step[OF False Inr this] show ?thesis by blast
    qed
  qed
qed

lemma callAdd_returns:
  assumes "wf (parentRel pm)"
  shows "\<exists>res. callAdd pm urp path = Some res"
proof (cases "path \<in> parentDirs urp \<union> childDirs urp")
  case True
  then show ?thesis by (simp add: callAdd_tracked)
next
  case False
  from walk_exists[OF assms] obtain as stop where "walk pm path as stop" by blast
  with False show ?thesis by (simp add: callAdd_walk)
qed

lemma callAdds_returns:
  assumes "wf (parentRel pm)"
  shows "\<exists>urp'. callAdds pm urp paths = Some urp'"
proof (induction paths arbitrary: urp)
  case Nil
  show ?case by simp
next
  case (Cons path paths)
  from callAdd_returns[OF assms] obtain u err where "callAdd pm urp path = Some (u, err)"
    by fastforce
  with Cons.IH[of u] show ?case by simp
qed

lemma wf_listPaths: "wf (parentRel listPaths)"
proof (rule wf_subset)
  show "wf (measure length)" by simp
  show "parentRel listPaths \<subseteq> measure length"
    by (auto simp: parentRel_def listPaths_def split: if_splits)
qed

section \<open>The refresh loops\<close>

lemma started_foldl: "foldl (\<lambda>started sp. started @ [sp]) acc ks = acc @ ks"
  by (induction ks arbitrary: acc) simp_all

lemma mapRange_mset: "mapRange m ks \<Longrightarrow> mset ks = mset_set m"
  by (auto simp: mapRange_def mset_set_set)

lemma mapRange_card: "mapRange m ks \<Longrightarrow> length ks = card m"
  by (auto simp: mapRange_def distinct_card)

lemma Compose_pair:
  "Compose [err, r] =
     (case (err, r) of
        (None, None) \<Rightarrow> None
      | (Some a, None) \<Rightarrow> Some (Error [a])
      | (None, Some b) \<Rightarrow> Some (Error [b])
      | (Some a, Some b) \<Rightarrow> Some (Error [a, b]))"
  by (simp add: Compose_def List.map_filter_simps split: option.splits)

lemma contains_refl: "contains e e"
  by (cases e) simp_all

lemma composed_Compose_left: "composed err e \<Longrightarrow> composed (Compose [err, r]) e"
  by (auto simp: composed_def Compose_pair split: option.splits)

lemma composed_Compose_right: "composed (Compose [err, Some e]) e"
  by (auto simp: composed_def Compose_pair contains_refl split: option.splits)

lemma Compose_None: "Compose [err, r] = None \<longleftrightarrow> err = None \<and> r = None"
  by (simp add: Compose_pair split: option.splits)

lemma blocking_called:
  "snd (foldl (\<lambda>(err, called) sp. (Compose [err, mbm sp], called @ [sp])) (err0, called0) ks) =
     called0 @ ks"
  by (induction ks arbitrary: err0 called0) simp_all

lemma blocking_None:
  "fst (foldl (\<lambda>(err, called) sp. (Compose [err, mbm sp], called @ [sp])) (err0, called0) ks) = None
     \<longleftrightarrow> err0 = None \<and> (\<forall>sp \<in> set ks. mbm sp = None)"
  by (induction ks arbitrary: err0 called0) (auto simp: Compose_None)

lemma blocking_keeps:
  "composed err0 e \<Longrightarrow>
   composed (fst (foldl (\<lambda>(err, called) sp. (Compose [err, mbm sp], called @ [sp])) (err0, called0) ks)) e"
  by (induction ks arbitrary: err0 called0) (simp_all add: composed_Compose_left)

lemma blocking_composed:
  "sp \<in> set ks \<Longrightarrow> mbm sp = Some e \<Longrightarrow>
   composed (fst (foldl (\<lambda>(err, called) sp. (Compose [err, mbm sp], called @ [sp])) (err0, called0) ks)) e"
proof (induction ks arbitrary: err0 called0)
  case Nil
  then show ?case by simp
next
  case (Cons k ks)
  show ?case
  proof (cases "sp = k")
    case True
    with Cons.prems(2) have "composed (Compose [err0, mbm k]) e"
      by (simp add: composed_Compose_right)
    from blocking_keeps[OF this] show ?thesis by simp
  next
    case False
    with Cons.prems have "sp \<in> set ks" by simp
    from Cons.IH[OF this Cons.prems(2)] show ?thesis by simp
  qed
qed

section \<open>Evaluation on concrete paths\<close>

lemmas eval_simps = callAdd_def callAdd_loop.simps listPaths_def newUniqueRefreshPaths_def
  AddContext_def Extend_def ErrSet_def

lemma anc_root_abd: "properAncestor listPaths [] [''a'', ''b'', ''d'']"
  by (rule properAncestor.grand[where q = "[''a'', ''b'']"], simp add: listPaths_def, simp add: listPaths_def,
      rule properAncestor.grand[where q = "[''a'']"], simp add: listPaths_def, simp add: listPaths_def,
      rule properAncestor.parent, simp add: listPaths_def, simp add: listPaths_def)

lemma anc_ab_abc: "properAncestor listPaths [''a'', ''b''] [''a'', ''b'', ''c'']"
  by (rule properAncestor.parent) (simp_all add: listPaths_def)

section \<open>The claims\<close>

text \<open>
  Claim C1 (minimality). After any sequence of \<^verbatim>\<open>callAdd\<close> calls on a new tracker,
  errors included, no element of \<open>childDirs\<close> is a proper ancestor of an element of
  \<open>childDirs\<close>.
\<close>

theorem childDirs_minimal:
  assumes "callAdds pm newUniqueRefreshPaths paths = Some urp"
    and "a \<in> childDirs urp" and "b \<in> childDirs urp"
  shows "\<not> properAncestor pm a b"
proof
  assume "properAncestor pm a b"
  moreover from callAdds_covered[OF covered_new assms(1)] have "covered pm urp" .
  ultimately have "a \<in> parentDirs urp" using assms(3) by (auto simp: covered_def)
  with \<open>covered pm urp\<close> assms(2) show False by (auto simp: covered_def)
qed

theorem childDirs_minimal_witness:
  "callAdds listPaths newUniqueRefreshPaths [[''a'', ''b'', ''c''], [''a'', ''b'', ''d'']] =
     Some \<lparr>childDirs = {[''a'', ''b'', ''c''], [''a'', ''b'', ''d'']},
           parentDirs = {[''a'', ''b''], [''a''], []}\<rparr> \<and>
   \<not> properAncestor listPaths [''a'', ''b'', ''c''] [''a'', ''b'', ''d'']"
proof -
  have run: "callAdds listPaths newUniqueRefreshPaths [[''a'', ''b'', ''c''], [''a'', ''b'', ''d'']] =
     Some \<lparr>childDirs = {[''a'', ''b'', ''c''], [''a'', ''b'', ''d'']},
           parentDirs = {[''a'', ''b''], [''a''], []}\<rparr>"
    by (simp add: eval_simps) auto
  from childDirs_minimal[OF run, of "[''a'', ''b'', ''c'']" "[''a'', ''b'', ''d'']"] run
  show ?thesis by simp
qed

text \<open>
  Claim C2 (coverage). As stated, every \<^verbatim>\<open>callAdd\<close> that returns nil leaves all proper
  ancestors of its path, up to and including the root, in \<open>parentDirs\<close>. The evaluation
  adds \<^verbatim>\<open>/a//c\<close> twice: the first call fails when \<^verbatim>\<open>Dir\<close> fails on \<^verbatim>\<open>/a/\<close> and leaves the
  path in \<open>childDirs\<close>; the second call finds it there and returns nil without walking,
  and the root is not in \<open>parentDirs\<close>.
\<close>

theorem callAdd_covers_counterexample:
  "callAdds listPaths newUniqueRefreshPaths [[''a'', [], ''c'']] =
     Some \<lparr>childDirs = {[''a'', [], ''c'']}, parentDirs = {[''a'', []]}\<rparr> \<and>
   callAdd listPaths \<lparr>childDirs = {[''a'', [], ''c'']}, parentDirs = {[''a'', []]}\<rparr> [''a'', [], ''c''] =
     Some (\<lparr>childDirs = {[''a'', [], ''c'']}, parentDirs = {[''a'', []]}\<rparr>, None) \<and>
   IsRoot listPaths [] \<and> \<not> IsRoot listPaths [''a'', [], ''c''] \<and>
   [] \<notin> parentDirs \<lparr>childDirs = {[''a'', [], ''c'']}, parentDirs = {[''a'', []]}\<rparr>"
  by (simp add: eval_simps)

text \<open>
  Claim C2, amended. On a tracker reached by \<^verbatim>\<open>callAdd\<close> calls, when \<^verbatim>\<open>callAdd\<close> of a path
  returns nil, every proper ancestor that the parent steps reach from the path is in
  \<open>parentDirs\<close> when the call returns; and when the path is not the root and was in
  neither set before the call, so that this call made the walk, the parent steps run up
  to the root and all the ancestors on the way, the root last, are in \<open>parentDirs\<close>.
\<close>

theorem callAdd_covers_reached_ancestors:
  assumes "callAdds pm newUniqueRefreshPaths paths = Some urp"
    and "callAdd pm urp path = Some (urp', None)"
  shows "(\<forall>a. properAncestor pm a path \<longrightarrow> a \<in> parentDirs urp') \<and>
    (path \<notin> parentDirs urp \<and> path \<notin> childDirs urp \<and> \<not> IsRoot pm path \<longrightarrow>
       (\<exists>as. walk pm path as None \<and> as \<noteq> [] \<and> IsRoot pm (last as) \<and>
             set as \<subseteq> parentDirs urp'))"
proof
  from callAdds_covered[OF covered_new assms(1)] have "covered pm urp" .
  from callAdd_covered[OF this assms(2)] have "covered pm urp'" .
  with callAdd_after[OF assms(2)] show "\<forall>a. properAncestor pm a path \<longrightarrow> a \<in> parentDirs urp'"
    by (auto simp: covered_def)
next
  show "path \<notin> parentDirs urp \<and> path \<notin> childDirs urp \<and> \<not> IsRoot pm path \<longrightarrow>
       (\<exists>as. walk pm path as None \<and> as \<noteq> [] \<and> IsRoot pm (last as) \<and>
             set as \<subseteq> parentDirs urp')"
  proof
    assume new: "path \<notin> parentDirs urp \<and> path \<notin> childDirs urp \<and> \<not> IsRoot pm path"
    from assms(2) show "\<exists>as. walk pm path as None \<and> as \<noteq> [] \<and> IsRoot pm (last as) \<and>
             set as \<subseteq> parentDirs urp'"
    proof (cases rule: callAdd_cases)
      case tracked
      with new show ?thesis by simp
    next
      case (walked as stop)
      from walked(5)[symmetric] have "stop = None" by (simp add: walkError_None)
      with walked(3) have w: "walk pm path as None" by simp
      from walk_last_root[OF w] new have "as \<noteq> [] \<and> IsRoot pm (last as)" by simp
      with w walked(4) show ?thesis by auto
    qed
  qed
qed

theorem callAdd_covers_reached_ancestors_witness:
  "callAdds listPaths newUniqueRefreshPaths [[''a'', ''b'', ''c'']] =
     Some \<lparr>childDirs = {[''a'', ''b'', ''c'']}, parentDirs = {[''a'', ''b''], [''a''], []}\<rparr> \<and>
   callAdd listPaths \<lparr>childDirs = {[''a'', ''b'', ''c'']}, parentDirs = {[''a'', ''b''], [''a''], []}\<rparr>
       [''a'', ''b'', ''d''] =
     Some (\<lparr>childDirs = {[''a'', ''b'', ''c''], [''a'', ''b'', ''d'']},
            parentDirs = {[''a'', ''b''], [''a''], []}\<rparr>, None) \<and>
   [''a'', ''b'', ''d''] \<notin> {[''a'', ''b''], [''a''], []} \<and>
   [''a'', ''b'', ''d''] \<notin> {[''a'', ''b'', ''c'']} \<and>
   \<not> IsRoot listPaths [''a'', ''b'', ''d''] \<and>
   properAncestor listPaths [] [''a'', ''b'', ''d''] \<and>
   [] \<in> parentDirs \<lparr>childDirs = {[''a'', ''b'', ''c''], [''a'', ''b'', ''d'']},
            parentDirs = {[''a'', ''b''], [''a''], []}\<rparr> \<and>
   (\<exists>as. walk listPaths [''a'', ''b'', ''d''] as None \<and> as \<noteq> [] \<and> IsRoot listPaths (last as) \<and>
      set as \<subseteq> {[''a'', ''b''], [''a''], []})"
proof -
  have run: "callAdds listPaths newUniqueRefreshPaths [[''a'', ''b'', ''c'']] =
     Some \<lparr>childDirs = {[''a'', ''b'', ''c'']}, parentDirs = {[''a'', ''b''], [''a''], []}\<rparr>"
    by (simp add: eval_simps) auto
  have add: "callAdd listPaths \<lparr>childDirs = {[''a'', ''b'', ''c'']}, parentDirs = {[''a'', ''b''], [''a''], []}\<rparr>
       [''a'', ''b'', ''d''] =
     Some (\<lparr>childDirs = {[''a'', ''b'', ''c''], [''a'', ''b'', ''d'']},
            parentDirs = {[''a'', ''b''], [''a''], []}\<rparr>, None)"
    by (simp add: eval_simps) auto
  have nr: "\<not> IsRoot listPaths [''a'', ''b'', ''d'']" by (simp add: listPaths_def)
  from callAdd_covers_reached_ancestors[OF run add] run add anc_root_abd nr
  show ?thesis by simp
qed

text \<open>
  Claim C3 (disjointness). After every call of a sequence of \<^verbatim>\<open>callAdd\<close> calls on a new
  tracker, \<open>childDirs\<close> and \<open>parentDirs\<close> are disjoint. Calls that return an error are
  part of the sequence: in the evaluation below the second call fails at \<^verbatim>\<open>/a/\<close> after
  its first parent step.
\<close>

theorem childDirs_parentDirs_disjoint:
  assumes "callAdds pm newUniqueRefreshPaths paths = Some urp"
  shows "childDirs urp \<inter> parentDirs urp = {}"
  using callAdds_covered[OF covered_new assms] by (simp add: covered_def)

theorem childDirs_parentDirs_disjoint_witness:
  "callAdds listPaths newUniqueRefreshPaths [[''a''], [''a'', [], ''c''], [''a'', ''d'']] =
     Some \<lparr>childDirs = {[''a'', [], ''c''], [''a'', ''d'']}, parentDirs = {[''a''], [''a'', []], []}\<rparr> \<and>
   {[''a'', [], ''c''], [''a'', ''d'']} \<inter> {[''a''], [''a'', []], []} = ({} :: string list set)"
proof -
  have run: "callAdds listPaths newUniqueRefreshPaths [[''a''], [''a'', [], ''c''], [''a'', ''d'']] =
     Some \<lparr>childDirs = {[''a'', [], ''c''], [''a'', ''d'']}, parentDirs = {[''a''], [''a'', []], []}\<rparr>"
    by (simp add: eval_simps) auto
  from childDirs_parentDirs_disjoint[OF run] run
  show ?thesis by simp
qed


text \<open>
  Claim C4 (superseding). On a tracker reached by \<^verbatim>\<open>callAdd\<close> calls, if \<open>A\<close> is in
  \<open>childDirs\<close> and \<^verbatim>\<open>callAdd\<close> of a proper descendant \<open>D\<close> of \<open>A\<close> returns nil, then
  afterwards \<open>A\<close> is not in \<open>childDirs\<close>, \<open>A\<close> is in \<open>parentDirs\<close> and \<open>D\<close> is in
  \<open>childDirs\<close>.
\<close>

theorem callAdd_supersedes:
  assumes "callAdds pm newUniqueRefreshPaths paths = Some urp"
    and "A \<in> childDirs urp"
    and "properAncestor pm A D"
    and "callAdd pm urp D = Some (urp', None)"
  shows "A \<notin> childDirs urp' \<and> A \<in> parentDirs urp' \<and> D \<in> childDirs urp'"
proof -
  from callAdds_covered[OF covered_new assms(1)] have cov: "covered pm urp" .
  have untracked: "D \<notin> parentDirs urp \<union> childDirs urp"
  proof
    assume "D \<in> parentDirs urp \<union> childDirs urp"
    with cov assms(3) have "A \<in> parentDirs urp" by (auto simp: covered_def)
    with cov assms(2) show False by (auto simp: covered_def)
  qed
  from assms(4) show ?thesis
  proof (cases rule: callAdd_cases)
    case tracked
    with untracked show ?thesis by simp
  next
    case (walked as stop)
    from walk_ancestors[OF walked(3)] assms(3) have "A \<in> set as" by simp
    moreover from walk_start_notin[OF walked(3)] have "D \<notin> set as" .
    ultimately show ?thesis using walked(4) by simp
  qed
qed

theorem callAdd_supersedes_witness:
  "callAdds listPaths newUniqueRefreshPaths [[''a'', ''b'']] =
     Some \<lparr>childDirs = {[''a'', ''b'']}, parentDirs = {[''a''], []}\<rparr> \<and>
   properAncestor listPaths [''a'', ''b''] [''a'', ''b'', ''c''] \<and>
   callAdd listPaths \<lparr>childDirs = {[''a'', ''b'']}, parentDirs = {[''a''], []}\<rparr> [''a'', ''b'', ''c''] =
     Some (\<lparr>childDirs = {[''a'', ''b'', ''c'']}, parentDirs = {[''a'', ''b''], [''a''], []}\<rparr>, None) \<and>
   [''a'', ''b''] \<notin> {[''a'', ''b'', ''c'']} \<and>
   [''a'', ''b''] \<in> {[''a'', ''b''], [''a''], []} \<and>
   [''a'', ''b'', ''c''] \<in> {[''a'', ''b'', ''c'']}"
proof -
  have run: "callAdds listPaths newUniqueRefreshPaths [[''a'', ''b'']] =
     Some \<lparr>childDirs = {[''a'', ''b'']}, parentDirs = {[''a''], []}\<rparr>"
    by (simp add: eval_simps) auto
  have add: "callAdd listPaths \<lparr>childDirs = {[''a'', ''b'']}, parentDirs = {[''a''], []}\<rparr> [''a'', ''b'', ''c''] =
     Some (\<lparr>childDirs = {[''a'', ''b'', ''c'']}, parentDirs = {[''a'', ''b''], [''a''], []}\<rparr>, None)"
    by (simp add: eval_simps) auto
  from callAdd_supersedes[OF run _ anc_ab_abc add] run add anc_ab_abc
  show ?thesis by simp
qed

text \<open>
  Claim C5 (idempotence). For any path methods, tracker and path: when \<^verbatim>\<open>callAdd\<close>
  returns (with or without an error), a second \<^verbatim>\<open>callAdd\<close> of the same path returns nil
  and leaves both sets as the first call left them.
\<close>

theorem callAdd_idempotent:
  assumes "callAdd pm urp path = Some (urp', err)"
  shows "callAdd pm urp' path = Some (urp', None)"
  using callAdd_after[OF assms] by (auto intro: callAdd_tracked)

theorem callAdd_idempotent_witness:
  "callAdd listPaths newUniqueRefreshPaths [''a'', ''b''] =
     Some (\<lparr>childDirs = {[''a'', ''b'']}, parentDirs = {[''a''], []}\<rparr>, None) \<and>
   callAdd listPaths \<lparr>childDirs = {[''a'', ''b'']}, parentDirs = {[''a''], []}\<rparr> [''a'', ''b''] =
     Some (\<lparr>childDirs = {[''a'', ''b'']}, parentDirs = {[''a''], []}\<rparr>, None)"
proof -
  have add: "callAdd listPaths newUniqueRefreshPaths [''a'', ''b''] =
     Some (\<lparr>childDirs = {[''a'', ''b'']}, parentDirs = {[''a''], []}\<rparr>, None)"
    by (simp add: eval_simps) auto
  from callAdd_idempotent[OF add] add show ?thesis by simp
qed

text \<open>
  Claim C6 (error propagation). As stated, the claim has the error of \<^verbatim>\<open>Dir\<close> returned
  unchanged. The evaluation shows that \<^verbatim>\<open>callAdd\<close> of \<^verbatim>\<open>/a//c\<close>, where \<^verbatim>\<open>Dir\<close> fails on the
  parent \<^verbatim>\<open>/a/\<close> with \<open>New ''invalid path''\<close>, returns a different error value: the
  composite made by \<open>AddContext\<close>.
\<close>

theorem callAdd_error_counterexample:
  "Dir listPaths [''a'', []] = Inl (New ''invalid path'') \<and>
   callAdd listPaths newUniqueRefreshPaths [''a'', [], ''c''] =
     Some (\<lparr>childDirs = {[''a'', [], ''c'']}, parentDirs = {[''a'', []]}\<rparr>,
           Some (Error [New ''unable to get parent directory of /a/'', New ''invalid path''])) \<and>
   Error [New ''unable to get parent directory of /a/'', New ''invalid path''] \<noteq> New ''invalid path''"
  by (simp add: eval_simps)

text \<open>
  Claim C6, amended. When the walk from an untracked path visits the ancestors \<open>as\<close>
  and then \<^verbatim>\<open>Dir\<close> fails with \<open>e\<close> on the non-root path \<open>q\<close>, \<^verbatim>\<open>callAdd\<close> returns the
  composite error that \<open>AddContext\<close> builds from \<open>e\<close> and the message
  \<^verbatim>\<open>unable to get parent directory of\<close> followed by the printed form of \<open>q\<close>; the tracker
  keeps the new path in \<open>childDirs\<close> and the changes made for the ancestors \<open>as\<close>
  visited before the failure.
\<close>

theorem callAdd_error_context:
  assumes "path \<notin> parentDirs urp" and "path \<notin> childDirs urp"
    and "walk pm path as (Some (q, e))"
  shows "\<not> IsRoot pm q \<and> Dir pm q = Inl e \<and>
    callAdd pm urp path =
      Some (urp\<lparr>childDirs := insert path (childDirs urp) - set as,
                 parentDirs := parentDirs urp \<union> set as\<rparr>,
            Some (Error (New (''unable to get parent directory of '' @ String pm q) # ErrSet e)))"
  using walk_stop[OF assms(3)] callAdd_walk[OF assms]
  by (simp add: walkError_def AddContext_Some)

theorem callAdd_error_context_witness:
  "walk listPaths [''a'', [], ''c''] [[''a'', []]] (Some ([''a'', []], New ''invalid path'')) \<and>
   callAdd listPaths \<lparr>childDirs = {[''a'']}, parentDirs = {[]}\<rparr> [''a'', [], ''c''] =
     Some (\<lparr>childDirs = {[''a''], [''a'', [], ''c'']}, parentDirs = {[], [''a'', []]}\<rparr>,
           Some (Error [New ''unable to get parent directory of /a/'', New ''invalid path'']))"
proof -
  have w: "walk listPaths [''a'', [], ''c''] [[''a'', []]] (Some ([''a'', []], New ''invalid path''))"
    by (rule walk.step[where q = "[''a'', []]"], simp add: listPaths_def, simp add: listPaths_def,
        rule walk.fail, simp add: listPaths_def, simp add: listPaths_def)
  from callAdd_error_context[OF _ _ w, of "\<lparr>childDirs = {[''a'']}, parentDirs = {[]}\<rparr>"] w
  show ?thesis by (simp add: listPaths_def ErrSet_def insert_commute)
qed


text \<open>
  Claim C7 (error aggregation). \<^verbatim>\<open>callRefreshAllBlocking\<close> calls the blocking refresh on
  every element of \<open>childDirs\<close> exactly once, whatever the earlier calls returned; every
  error a refresh returns is contained in the returned error; and the returned error is
  nil exactly when every refresh returned nil.
\<close>

theorem callRefreshAllBlocking_aggregates:
  assumes "mapRange (childDirs urp) ks"
    and "callRefreshAllBlocking mbm ks urp = (urp', err, called)"
  shows "mset called = mset_set (childDirs urp) \<and>
    (\<forall>sp \<in> childDirs urp. \<forall>e. mbm sp = Some e \<longrightarrow> (\<exists>E. err = Some E \<and> contains E e)) \<and>
    (err = None \<longleftrightarrow> (\<forall>sp \<in> childDirs urp. mbm sp = None))"
proof -
  let ?r = "foldl (\<lambda>(err, called) sp. (Compose [err, mbm sp], called @ [sp])) (None, []) ks"
  from assms(2) have err: "err = fst ?r" and called: "called = snd ?r"
    by (simp_all add: callRefreshAllBlocking_def)
  from assms(1) have keys: "set ks = childDirs urp" by (simp add: mapRange_def)
  have "called = ks" unfolding called by (simp add: blocking_called)
  with mapRange_mset[OF assms(1)] have 1: "mset called = mset_set (childDirs urp)" by simp
  have 2: "\<exists>E. err = Some E \<and> contains E e" if "sp \<in> childDirs urp" "mbm sp = Some e" for sp e
    using blocking_composed[of sp ks mbm e None "[]"] that keys err by (simp add: composed_def)
  have 3: "err = None \<longleftrightarrow> (\<forall>sp \<in> childDirs urp. mbm sp = None)"
    unfolding err using keys by (simp add: blocking_None)
  from 1 2 3 show ?thesis by blast
qed

theorem callRefreshAllBlocking_aggregates_witness:
  "mapRange {[''a''], [''b''], [''c'']} [[''a''], [''b''], [''c'']] \<and>
   callRefreshAllBlocking refreshFailsButB [[''a''], [''b''], [''c'']]
       \<lparr>childDirs = {[''a''], [''b''], [''c'']}, parentDirs = {[]}\<rparr> =
     (\<lparr>childDirs = {[''a''], [''b''], [''c'']}, parentDirs = {[]}\<rparr>,
      Some (Error [Error [Error [New ''refresh failed: a'']], New ''refresh failed: c'']),
      [[''a''], [''b''], [''c'']]) \<and>
   refreshFailsButB [''a''] = Some (New ''refresh failed: a'') \<and>
   refreshFailsButB [''c''] = Some (New ''refresh failed: c'') \<and>
   contains (Error [Error [Error [New ''refresh failed: a'']], New ''refresh failed: c''])
     (New ''refresh failed: a'') \<and>
   contains (Error [Error [Error [New ''refresh failed: a'']], New ''refresh failed: c''])
     (New ''refresh failed: c'') \<and>
   mset [[''a''], [''b''], [''c'']] = mset_set {[''a''], [''b''], [''c'']}"
proof -
  have r: "mapRange (childDirs \<lparr>childDirs = {[''a''], [''b''], [''c'']}, parentDirs = {[]}\<rparr>)
      [[''a''], [''b''], [''c'']]"
    by (simp add: mapRange_def)
  have c: "callRefreshAllBlocking refreshFailsButB [[''a''], [''b''], [''c'']]
       \<lparr>childDirs = {[''a''], [''b''], [''c'']}, parentDirs = {[]}\<rparr> =
     (\<lparr>childDirs = {[''a''], [''b''], [''c'']}, parentDirs = {[]}\<rparr>,
      Some (Error [Error [Error [New ''refresh failed: a'']], New ''refresh failed: c'']),
      [[''a''], [''b''], [''c'']])"
    by (simp add: callRefreshAllBlocking_def refreshFailsButB_def Compose_def List.map_filter_simps)
  from callRefreshAllBlocking_aggregates[OF r c] r c
  show ?thesis by (simp add: refreshFailsButB_def)
qed

text \<open>
  Claim C8 (root). \<^verbatim>\<open>callAdd\<close> of a root path on a new tracker returns nil with
  \<open>childDirs\<close> holding exactly the root and \<open>parentDirs\<close> empty.
\<close>

theorem callAdd_root:
  assumes "IsRoot pm path"
  shows "callAdd pm newUniqueRefreshPaths path = Some (\<lparr>childDirs = {path}, parentDirs = {}\<rparr>, None)"
  using assms by (simp add: callAdd_def newUniqueRefreshPaths_def callAdd_loop.simps)


theorem callAdd_root_witness:
  "IsRoot listPaths [] \<and>
   callAdd listPaths newUniqueRefreshPaths [] = Some (\<lparr>childDirs = {[]}, parentDirs = {}\<rparr>, None)"
proof -
  have r: "IsRoot listPaths []" by (simp add: listPaths_def)
  from callAdd_root[OF r] r show ?thesis by simp
qed

text \<open>
  Claim C9 (dispatch count). \<^verbatim>\<open>callRefreshAll\<close> starts the asynchronous refresh once for
  each element of \<open>childDirs\<close>: the started paths, as a multiset, are the child set, no
  path is started twice, their number is \<^verbatim>\<open>callNumChildDirs\<close>, and both sets of the
  tracker are as before.
\<close>

theorem callRefreshAll_dispatch:
  assumes "mapRange (childDirs urp) ks"
    and "callRefreshAll ks urp = (urp', started)"
  shows "mset started = mset_set (childDirs urp) \<and> distinct started \<and>
    int (length started) = callNumChildDirs urp \<and>
    childDirs urp' = childDirs urp \<and> parentDirs urp' = parentDirs urp"
proof -
  from assms(2) have "started = ks" "urp' = urp"
    by (simp_all add: callRefreshAll_def started_foldl)
  with assms(1) mapRange_mset[OF assms(1)] mapRange_card[OF assms(1)] show ?thesis
    by (simp add: callNumChildDirs_def mapRange_def)
qed

theorem callRefreshAll_dispatch_witness:
  "mapRange {[''a''], [''b'']} [[''b''], [''a'']] \<and>
   callRefreshAll [[''b''], [''a'']] \<lparr>childDirs = {[''a''], [''b'']}, parentDirs = {[]}\<rparr> =
     (\<lparr>childDirs = {[''a''], [''b'']}, parentDirs = {[]}\<rparr>, [[''b''], [''a'']]) \<and>
   mset [[''b''], [''a'']] = mset_set {[''a''], [''b'']} \<and>
   callNumChildDirs \<lparr>childDirs = {[''a''], [''b'']}, parentDirs = {[]}\<rparr> = 2"
proof -
  have r: "mapRange (childDirs \<lparr>childDirs = {[''a''], [''b'']}, parentDirs = {[]}\<rparr>) [[''b''], [''a'']]"
    by (auto simp: mapRange_def)
  have c: "callRefreshAll [[''b''], [''a'']] \<lparr>childDirs = {[''a''], [''b'']}, parentDirs = {[]}\<rparr> =
     (\<lparr>childDirs = {[''a''], [''b'']}, parentDirs = {[]}\<rparr>, [[''b''], [''a'']])"
    by (simp add: callRefreshAll_def)
  from callRefreshAll_dispatch[OF r c] r c
  show ?thesis by simp
qed

text \<open>
  Claim C10 (the parent set only grows). On a tracker reached by \<^verbatim>\<open>callAdd\<close> calls, a
  path in \<open>parentDirs\<close> stays there through any later \<^verbatim>\<open>callAdd\<close> calls and never enters
  \<open>childDirs\<close>; \<^verbatim>\<open>callAdd\<close> of that path returns nil and changes nothing; and the two
  refresh operations leave the tracker as it is.
\<close>

theorem parentDirs_monotone:
  assumes "callAdds pm newUniqueRefreshPaths paths = Some urp"
    and "x \<in> parentDirs urp"
    and "callAdds pm urp later = Some urp'"
  shows "parentDirs urp \<subseteq> parentDirs urp' \<and> x \<in> parentDirs urp' \<and> x \<notin> childDirs urp' \<and>
    callAdd pm urp' x = Some (urp', None) \<and>
    fst (callRefreshAll ks urp') = urp' \<and> fst (callRefreshAllBlocking mbm ks urp') = urp'"
proof -
  from callAdds_parent_mono[OF assms(3)] have mono: "parentDirs urp \<subseteq> parentDirs urp'" .
  with assms(2) have x: "x \<in> parentDirs urp'" by blast
  from callAdds_covered[OF covered_new assms(1)] have "covered pm urp" .
  from callAdds_covered[OF this assms(3)] have "covered pm urp'" .
  with x have "x \<notin> childDirs urp'" by (auto simp: covered_def)
  moreover from x have "callAdd pm urp' x = Some (urp', None)" by (simp add: callAdd_tracked)
  ultimately show ?thesis using mono x
    by (simp add: callRefreshAll_def callRefreshAllBlocking_def)
qed


theorem parentDirs_monotone_witness:
  "callAdds listPaths newUniqueRefreshPaths [[''a'', ''b'']] =
     Some \<lparr>childDirs = {[''a'', ''b'']}, parentDirs = {[''a''], []}\<rparr> \<and>
   callAdds listPaths \<lparr>childDirs = {[''a'', ''b'']}, parentDirs = {[''a''], []}\<rparr> [[''a''], [''c'']] =
     Some \<lparr>childDirs = {[''a'', ''b''], [''c'']}, parentDirs = {[''a''], []}\<rparr> \<and>
   [''a''] \<in> {[''a''], []} \<and> [''a''] \<notin> {[''a'', ''b''], [''c'']} \<and>
   callAdd listPaths \<lparr>childDirs = {[''a'', ''b''], [''c'']}, parentDirs = {[''a''], []}\<rparr> [''a''] =
     Some (\<lparr>childDirs = {[''a'', ''b''], [''c'']}, parentDirs = {[''a''], []}\<rparr>, None)"
proof -
  have run: "callAdds listPaths newUniqueRefreshPaths [[''a'', ''b'']] =
     Some \<lparr>childDirs = {[''a'', ''b'']}, parentDirs = {[''a''], []}\<rparr>"
    by (simp add: eval_simps) auto
  have later: "callAdds listPaths \<lparr>childDirs = {[''a'', ''b'']}, parentDirs = {[''a''], []}\<rparr> [[''a''], [''c'']] =
     Some \<lparr>childDirs = {[''a'', ''b''], [''c'']}, parentDirs = {[''a''], []}\<rparr>"
    by (simp add: eval_simps) auto
  from parentDirs_monotone[OF run _ later, of "[''a'']"] run later
  show ?thesis by simp
qed


end
